theory Spec2Isabelle
  imports Main
begin

section \<open>The batch-embedding client of automatic\_embedding\_tei\_inference\_endpoints\<close>

text \<open>
  The notebook's client is two coroutines:
  \<^verbatim>\<open>
  async def request(document, semaphore):
      # Semaphore guard
      async with semaphore:
          result = await endpoint.async_client.post(
              json={"inputs": document['content'], 'truncate': True},
              task="feature-extraction")
          result = np.array(json.loads(result.decode()))
          document['embedding'] = result[0]
          return document

  async def main(documents):
      semaphore = asyncio.BoundedSemaphore(MAX_WORKERS)
      tasks = [request(document, semaphore) for document in documents]
      for f in tqdm(asyncio.as_completed(tasks), total=len(documents)):
          await f
  \<close>
  asyncio runs them on one thread: a coroutine runs without interruption from one
  suspension point to the next. \<open>request\<close> suspends when it has to wait for the
  semaphore and at \<open>await ... post(...)\<close>; \<open>main\<close> suspends at \<open>await f\<close>. The model
  has one atomic transition for each stretch between suspension points, and a run is the
  list of transitions the event loop fires. The order in which \<open>as_completed\<close> starts the
  tasks (it iterates over a set of them) and the order in which the endpoint answers are
  not fixed by the program, so every order is a run.
\<close>

subsection \<open>Records, the heap, payloads and replies\<close>

text \<open>
  A document is a Python dict; \<open>documents\<close> is a list of references to dicts, so the
  model keeps the dicts in a heap and the list holds addresses. The vectors of the
  endpoint are not inspected by the client, their type is a parameter.
\<close>

type_synonym addr = nat

datatype 'v pyval = Text string | Vector 'v | Opaque nat

type_synonym 'v document = "string \<rightharpoonup> 'v pyval"

type_synonym 'v heap = "addr \<Rightarrow> 'v document"

text \<open>
  The JSON body of the post: \<open>{"inputs": document['content'], 'truncate': True}\<close>.
  The other argument of \<open>post\<close>, \<open>task="feature-extraction"\<close>, is a constant and is
  left out.
\<close>

datatype 'v payload = Payload (inputs: "'v pyval") (truncate_flag: bool)

text \<open>
  What \<open>post\<close> can raise (the transport fails, the request times out, the status is not
  2xx), and the exceptions of \<open>request\<close>.
\<close>

datatype failure = Timeout | ConnectionReset | BadStatus nat

datatype error = KeyError | RequestFailed failure | DecodeError | IndexError | ValueError

text \<open>
  What comes back to the suspended \<open>await ... post(...)\<close>, classified by what
  \<open>np.array(json.loads(result.decode()))\<close> makes of it: \<open>post\<close> raises; the body
  arrives but decoding it raises; the body decodes to a zero-dimensional array (a JSON
  number, string, object or null); the body decodes to an array with the listed rows
  along its first axis.
\<close>

datatype 'v reply = Fails failure | Undecodable | ZeroDim | Rows "'v list"

subsection \<open>The bounded semaphore\<close>

text \<open>
  \<open>asyncio.BoundedSemaphore(n)\<close>: \<open>acquire\<close> takes a slot when the value is positive
  and otherwise suspends the caller (here: the transition is not enabled); \<open>release\<close>
  raises \<open>ValueError\<close> when the value has reached the bound, and adds a slot otherwise.
  asyncio wakes the suspended callers in the order they arrived; the model lets any
  pending task take a free slot, so the runs of the model include those of asyncio.
\<close>

definition acquire :: "nat \<Rightarrow> nat option" where
  "acquire v = (if 0 < v then Some (v - 1) else None)"

definition release :: "nat \<Rightarrow> nat \<Rightarrow> error + nat" where
  "release bound v = (if bound \<le> v then Inl ValueError else Inr (v + 1))"

subsection \<open>Tasks and the state of the event loop\<close>

datatype 'v phase = Pending | InFlight "'v payload" | Finished | Raised error

datatype main_status = Running | Returned | Aborted error

record 'v state =
  heap :: "'v heap"
  sem_value :: nat
  tasks :: "'v phase list"
  done_q :: "nat list"
  consumed :: nat
  main_st :: main_status

text \<open>
  The configuration cell of the notebook: \<open>MAX_WORKERS = 5\<close>. The transitions take the
  bound as a parameter.
\<close>

definition MAX_WORKERS :: nat where
  "MAX_WORKERS = 5"

text \<open>
  \<open>main\<close> up to its first \<open>await\<close>: the semaphore is created with all its slots free,
  one \<open>request\<close> coroutine is created per element of \<open>documents\<close>, and
  \<open>as_completed\<close> schedules them all; none has run yet.
\<close>

definition main :: "nat \<Rightarrow> addr list \<Rightarrow> 'v heap \<Rightarrow> 'v state" where
  "main bound documents h =
     \<lparr>heap = h, sem_value = bound, tasks = map (\<lambda>d. Pending) documents,
      done_q = [], consumed = 0, main_st = Running\<rparr>"

text \<open>
  A task that returns or raises is done: \<open>as_completed\<close>'s callback appends it to the
  queue \<open>main\<close> reads from.
\<close>

definition settle :: "nat \<Rightarrow> 'v phase \<Rightarrow> 'v state \<Rightarrow> 'v state" where
  "settle i ph s = s\<lparr>tasks := (tasks s)[i := ph], done_q := done_q s @ [i]\<rparr>"

text \<open>
  \<open>request\<close> from its start to the suspension in \<open>post\<close>: enter \<open>async with\<close>
  (acquire a slot), evaluate \<open>document['content']\<close> (a missing key raises
  \<open>KeyError\<close>, which leaves the \<open>async with\<close> block and releases the slot), send the
  payload.
\<close>

definition request_enter :: "nat \<Rightarrow> addr list \<Rightarrow> nat \<Rightarrow> 'v state \<Rightarrow> 'v state option" where
  "request_enter bound documents i s =
     (if i < length documents \<and> i < length (tasks s) \<and> tasks s ! i = Pending then
        (case acquire (sem_value s) of
           None \<Rightarrow> None
         | Some v \<Rightarrow>
            (case heap s (documents ! i) ''content'' of
               None \<Rightarrow>
                 (case release bound v of
                    Inl e \<Rightarrow> Some (settle i (Raised e) (s\<lparr>sem_value := v\<rparr>))
                  | Inr v' \<Rightarrow> Some (settle i (Raised KeyError) (s\<lparr>sem_value := v'\<rparr>)))
             | Some c \<Rightarrow>
                 Some (s\<lparr>sem_value := v, tasks := (tasks s)[i := InFlight (Payload c True)]\<rparr>)))
      else None)"

text \<open>
  \<open>np.array(json.loads(result.decode()))\<close> followed by \<open>result[0]\<close>: indexing a
  zero-dimensional or an empty array raises \<open>IndexError\<close>.
\<close>

fun first_row :: "'v reply \<Rightarrow> error + 'v" where
  "first_row (Fails f) = Inl (RequestFailed f)"
| "first_row Undecodable = Inl DecodeError"
| "first_row ZeroDim = Inl IndexError"
| "first_row (Rows []) = Inl IndexError"
| "first_row (Rows (v # vs)) = Inr v"

fun is_in_flight :: "'v phase \<Rightarrow> bool" where
  "is_in_flight (InFlight p) = True"
| "is_in_flight ph = False"

text \<open>
  \<open>request\<close> from the reply to its end: decode, take row 0, assign
  \<open>document['embedding']\<close>, leave \<open>async with\<close> (release the slot), return. An
  exception skips the assignment and leaves \<open>async with\<close> all the same.
\<close>

definition request_resume ::
    "nat \<Rightarrow> addr list \<Rightarrow> nat \<Rightarrow> 'v reply \<Rightarrow> 'v state \<Rightarrow> 'v state option" where
  "request_resume bound documents i r s =
     (if i < length documents \<and> i < length (tasks s) \<and> is_in_flight (tasks s ! i) then
        (let a = documents ! i;
             (h', ending) =
               (case first_row r of
                  Inl e \<Rightarrow> (heap s, Raised e)
                | Inr v \<Rightarrow> ((heap s)(a := (heap s a)(''embedding'' \<mapsto> Vector v)), Finished))
         in case release bound (sem_value s) of
              Inl e \<Rightarrow> Some (settle i (Raised e) (s\<lparr>heap := h'\<rparr>))
            | Inr v' \<Rightarrow> Some (settle i ending (s\<lparr>heap := h', sem_value := v'\<rparr>)))
      else None)"

text \<open>
  One turn of \<open>for f in as_completed(tasks): await f\<close>: when every task has been
  awaited the loop ends and \<open>main\<close> returns (\<open>None\<close>); otherwise \<open>main\<close> waits for the
  next done task, and \<open>await f\<close> re-raises the exception of a task that raised, which
  nothing in \<open>main\<close> catches.
\<close>

definition main_await :: "'v state \<Rightarrow> 'v state option" where
  "main_await s =
     (if main_st s \<noteq> Running then None
      else if consumed s = length (tasks s) then Some (s\<lparr>main_st := Returned\<rparr>)
      else
        (case done_q s of
           [] \<Rightarrow> None
         | j # q \<Rightarrow>
            (case tasks s ! j of
               Raised e \<Rightarrow> Some (s\<lparr>done_q := q, main_st := Aborted e\<rparr>)
             | _ \<Rightarrow> Some (s\<lparr>done_q := q, consumed := consumed s + 1\<rparr>))))"



subsection \<open>Runs\<close>

text \<open>
  The transitions of the event loop: task \<open>i\<close> is admitted, the reply to task \<open>i\<close>
  arrives, \<open>main\<close> takes a turn. A transition that is not enabled gives \<open>None\<close>.
  The tasks are scheduled on the loop, not owned by \<open>main\<close>: they go on after \<open>main\<close>
  has raised.
\<close>

datatype 'v event = Admit nat | Reply nat "'v reply" | Await

fun fire :: "nat \<Rightarrow> addr list \<Rightarrow> 'v event \<Rightarrow> 'v state \<Rightarrow> 'v state option" where
  "fire bound documents (Admit i) s = request_enter bound documents i s"
| "fire bound documents (Reply i r) s = request_resume bound documents i r s"
| "fire bound documents Await s = main_await s"

fun run_from :: "nat \<Rightarrow> addr list \<Rightarrow> 'v event list \<Rightarrow> 'v state \<Rightarrow> 'v state option" where
  "run_from bound documents [] s = Some s"
| "run_from bound documents (e # es) s =
     (case fire bound documents e s of
        None \<Rightarrow> None
      | Some s' \<Rightarrow> run_from bound documents es s')"

definition run :: "nat \<Rightarrow> addr list \<Rightarrow> 'v heap \<Rightarrow> 'v event list \<Rightarrow> 'v state option" where
  "run bound documents h es = run_from bound documents es (main bound documents h)"

subsection \<open>Observations and invariants\<close>

text \<open>The number of requests that are outstanding: sent and not yet answered.\<close>

definition in_flight :: "'v state \<Rightarrow> nat" where
  "in_flight s = length (filter is_in_flight (tasks s))"

text \<open>
  The gate's invariant: one task per document, and every slot of the semaphore is either
  free or held by an outstanding request.
\<close>

definition gate_inv :: "nat \<Rightarrow> addr list \<Rightarrow> 'v state \<Rightarrow> bool" where
  "gate_inv K D s \<longleftrightarrow> length (tasks s) = length D \<and> sem_value s + in_flight s = K"

text \<open>
  What is on the wire: the payload of an outstanding request is the content of the
  task's record as it was when \<open>main\<close> was called, with the flag set.
\<close>

definition payload_inv :: "addr list \<Rightarrow> 'v heap \<Rightarrow> 'v state \<Rightarrow> bool" where
  "payload_inv D h s \<longleftrightarrow>
     (\<forall>i p. i < length D \<and> tasks s ! i = InFlight p \<longrightarrow>
        h (D ! i) ''content'' = Some (inputs p) \<and> truncate_flag p)"

text \<open>A task is settled when it has returned or raised.\<close>

fun settled :: "'v phase \<Rightarrow> bool" where
  "settled Finished = True"
| "settled (Raised e) = True"
| "settled ph = False"

text \<open>The replies that a run delivered to task \<open>j\<close>, in order.\<close>

fun replies_to :: "nat \<Rightarrow> 'v event list \<Rightarrow> 'v reply list" where
  "replies_to j [] = []"
| "replies_to j (Reply i r # es) = (if i = j then r # replies_to j es else replies_to j es)"
| "replies_to j (e # es) = replies_to j es"

text \<open>How a task that received the reply \<open>r\<close> ends.\<close>

definition outcome :: "'v reply \<Rightarrow> 'v phase" where
  "outcome r = (case first_row r of Inl e \<Rightarrow> Raised e | Inr v \<Rightarrow> Finished)"

text \<open>
  The life of task \<open>j\<close>, read off the run: before its reply it is pending, outstanding
  or has raised \<open>KeyError\<close> on a record with no \<open>content\<close>; it receives at most one
  reply, and then it has ended as that reply says.
\<close>

definition reply_ok :: "addr list \<Rightarrow> 'v heap \<Rightarrow> 'v event list \<Rightarrow> 'v state \<Rightarrow> nat \<Rightarrow> bool" where
  "reply_ok D h es s j \<longleftrightarrow>
     (if j < length D then
        (replies_to j es = [] \<and>
           (tasks s ! j = Pending \<or> is_in_flight (tasks s ! j) \<or>
            (tasks s ! j = Raised KeyError \<and> h (D ! j) ''content'' = None))) \<or>
        (\<exists>r. replies_to j es = [r] \<and> tasks s ! j = outcome r \<and> h (D ! j) ''content'' \<noteq> None)
      else replies_to j es = [])"

text \<open>
  The record at address \<open>a\<close>: unchanged while no task for it has finished, and
  otherwise its initial fields with the first row of a reply to one of its tasks as
  \<open>embedding\<close>.
\<close>

definition heap_ok :: "addr list \<Rightarrow> 'v heap \<Rightarrow> 'v event list \<Rightarrow> 'v state \<Rightarrow> addr \<Rightarrow> bool" where
  "heap_ok D h es s a \<longleftrightarrow>
     (heap s a = h a \<and> (\<forall>j < length D. D ! j = a \<longrightarrow> tasks s ! j \<noteq> Finished)) \<or>
     (\<exists>j v r. j < length D \<and> D ! j = a \<and> replies_to j es = [r] \<and> first_row r = Inr v \<and>
        heap s a = (h a)(''embedding'' \<mapsto> Vector v))"

text \<open>
  The bookkeeping of \<open>as_completed\<close> and the loop of \<open>main\<close>: the queue holds settled
  tasks, every finished task has been awaited or is queued, \<open>main\<close> has returned only
  after awaiting every task, and an exception that ended \<open>main\<close> is the exception of
  one of the tasks.
\<close>

definition main_inv :: "addr list \<Rightarrow> 'v state \<Rightarrow> bool" where
  "main_inv D s \<longleftrightarrow>
     (\<forall>j \<in> set (done_q s). j < length D \<and> settled (tasks s ! j))
     \<and> consumed s + length (filter (\<lambda>j. tasks s ! j = Finished) (done_q s)) =
         length (filter (\<lambda>ph. ph = Finished) (tasks s))
     \<and> (main_st s = Returned \<longrightarrow> consumed s = length D)
     \<and> (\<forall>err. main_st s = Aborted err \<longrightarrow> (\<exists>j < length D. tasks s ! j = Raised err))"


text \<open>The number of outstanding requests for the record at address \<open>a\<close>.\<close>

definition outstanding_for :: "addr list \<Rightarrow> 'v state \<Rightarrow> addr \<Rightarrow> nat" where
  "outstanding_for documents s a =
     length (filter (\<lambda>j. documents ! j = a \<and> is_in_flight (tasks s ! j)) [0..<length documents])"

text \<open>The number of tasks that have not been admitted yet.\<close>

definition pending :: "'v state \<Rightarrow> nat" where
  "pending s = length (filter (\<lambda>ph. ph = Pending) (tasks s))"

subsection \<open>Examples\<close>

text \<open>
  A heap for the examples: six posts with a text and an id, and nothing at the other
  addresses.
\<close>

definition demo_heap :: "nat heap" where
  "demo_heap a =
     (if a < 6 then [''content'' \<mapsto> Text (replicate a CHR ''x''), ''id'' \<mapsto> Opaque a]
      else Map.empty)"


section \<open>Runs and the shape of the transitions\<close>

lemma run_from_append:
  "run_from K D (es @ fs) s =
     (case run_from K D es s of None \<Rightarrow> None | Some s' \<Rightarrow> run_from K D fs s')"
  by (induction es arbitrary: s) (auto split: option.splits)

lemma run_snoc:
  "run K D h (es @ [e]) = Some s' \<longleftrightarrow> (\<exists>s. run K D h es = Some s \<and> fire K D e s = Some s')"
  by (auto simp: run_def run_from_append split: option.splits)

lemma run_induct [consumes 1, case_names init step]:
  assumes "run K D h es = Some s"
    and "P [] (main K D h)"
    and "\<And>es s e s'. run K D h es = Some s \<Longrightarrow> P es s \<Longrightarrow> fire K D e s = Some s' \<Longrightarrow> P (es @ [e]) s'"
  shows "P es s"
  using assms(1)
proof (induction es arbitrary: s rule: rev_induct)
  case Nil
  then show ?case using assms(2) by (simp add: run_def)
next
  case (snoc e es)
  then obtain s0 where "run K D h es = Some s0" "fire K D e s0 = Some s"
    by (auto simp: run_snoc)
  with snoc.IH assms(3) show ?case by blast
qed

lemma filter_update_count:
  "i < length xs \<Longrightarrow>
     length (filter P (xs[i := y])) + (if P (xs ! i) then 1 else 0) =
     length (filter P xs) + (if P y then 1 else 0)"
proof (induction xs arbitrary: i)
  case Nil
  then show ?case by simp
next
  case (Cons x xs)
  then show ?case by (cases i) auto
qed

lemma in_flight_update:
  "i < length (tasks s) \<Longrightarrow>
     in_flight (s\<lparr>tasks := (tasks s)[i := ph]\<rparr>) + (if is_in_flight (tasks s ! i) then 1 else 0) =
     in_flight s + (if is_in_flight ph then 1 else 0)"
  using filter_update_count [of i "tasks s" is_in_flight ph] by (simp add: in_flight_def)

lemma in_flight_settle:
  "i < length (tasks s) \<Longrightarrow>
     in_flight (settle i ph s) + (if is_in_flight (tasks s ! i) then 1 else 0) =
     in_flight s + (if is_in_flight ph then 1 else 0)"
  using filter_update_count [of i "tasks s" is_in_flight ph] by (simp add: in_flight_def settle_def)

lemma gate_inv_main: "gate_inv K D (main K D h)"
  by (simp add: gate_inv_def main_def in_flight_def)

lemma request_enter_cases [consumes 1, case_names over_release key_error posted]:
  assumes "request_enter K D i s = Some s'"
  obtains
    (over_release) "i < length D" "i < length (tasks s)" "tasks s ! i = Pending"
      "0 < sem_value s" "heap s (D ! i) ''content'' = None" "K < sem_value s"
      "s' = settle i (Raised ValueError) (s\<lparr>sem_value := sem_value s - 1\<rparr>)"
  | (key_error) "i < length D" "i < length (tasks s)" "tasks s ! i = Pending"
      "0 < sem_value s" "heap s (D ! i) ''content'' = None" "sem_value s \<le> K"
      "s' = settle i (Raised KeyError) s"
  | (posted) c where "i < length D" "i < length (tasks s)" "tasks s ! i = Pending"
      "0 < sem_value s" "heap s (D ! i) ''content'' = Some c"
      "s' = s\<lparr>sem_value := sem_value s - 1, tasks := (tasks s)[i := InFlight (Payload c True)]\<rparr>"
  using assms
  by (auto simp: request_enter_def acquire_def release_def split: if_splits option.splits sum.splits)

lemma request_resume_cases [consumes 1, case_names over_release failed stored]:
  assumes "request_resume K D i r s = Some s'"
  obtains
    (over_release) p where "i < length D" "i < length (tasks s)" "tasks s ! i = InFlight p"
      "K \<le> sem_value s" "tasks s' = (tasks s)[i := Raised ValueError]"
      "sem_value s' = sem_value s" "done_q s' = done_q s @ [i]"
      "consumed s' = consumed s" "main_st s' = main_st s"
      "heap s' = (case first_row r of Inl e \<Rightarrow> heap s
          | Inr v \<Rightarrow> (heap s)(D ! i := (heap s (D ! i))(''embedding'' \<mapsto> Vector v)))"
  | (failed) p e where "i < length D" "i < length (tasks s)" "tasks s ! i = InFlight p"
      "sem_value s < K" "first_row r = Inl e"
      "s' = settle i (Raised e) (s\<lparr>sem_value := sem_value s + 1\<rparr>)"
  | (stored) p v where "i < length D" "i < length (tasks s)" "tasks s ! i = InFlight p"
      "sem_value s < K" "first_row r = Inr v"
      "s' = settle i Finished
         (s\<lparr>heap := (heap s)(D ! i := (heap s (D ! i))(''embedding'' \<mapsto> Vector v)),
            sem_value := sem_value s + 1\<rparr>)"
proof -
  from assms have i: "i < length D" "i < length (tasks s)" "is_in_flight (tasks s ! i)"
    by (auto simp: request_resume_def split: if_splits)
  then obtain p where p: "tasks s ! i = InFlight p"
    by (cases "tasks s ! i") auto
  show thesis
  proof (cases "K \<le> sem_value s")
    case True
    with assms i show ?thesis
      by (intro over_release [OF i(1,2) p])
        (auto simp: request_resume_def release_def settle_def Let_def split: sum.splits)
  next
    case False
    show ?thesis
    proof (cases "first_row r")
      case (Inl e)
      with assms i False show ?thesis
        by (intro failed [OF i(1,2) p, of e])
          (auto simp: request_resume_def release_def Let_def)
    next
      case (Inr v)
      with assms i False show ?thesis
        by (intro stored [OF i(1,2) p, of v])
          (auto simp: request_resume_def release_def Let_def)
    qed
  qed
qed

lemma main_await_cases [consumes 1, case_names returned aborted progressed]:
  assumes "main_await s = Some s'"
  obtains
    (returned) "main_st s = Running" "consumed s = length (tasks s)" "s' = s\<lparr>main_st := Returned\<rparr>"
  | (aborted) j q e where "main_st s = Running" "consumed s \<noteq> length (tasks s)"
      "done_q s = j # q" "tasks s ! j = Raised e" "s' = s\<lparr>done_q := q, main_st := Aborted e\<rparr>"
  | (progressed) j q where "main_st s = Running" "consumed s \<noteq> length (tasks s)"
      "done_q s = j # q" "\<forall>e. tasks s ! j \<noteq> Raised e"
      "s' = s\<lparr>done_q := q, consumed := consumed s + 1\<rparr>"
  using assms
  by (auto simp: main_await_def split: if_splits list.splits phase.splits)

lemma gate_inv_fire:
  assumes "gate_inv K D s" "fire K D e s = Some s'"
  shows "gate_inv K D s'"
proof (cases e)
  case (Admit i)
  with assms(2) have "request_enter K D i s = Some s'" by simp
  then show ?thesis
  proof (cases rule: request_enter_cases)
    case over_release
    with assms(1) show ?thesis by (simp add: gate_inv_def)
  next
    case key_error
    with assms(1) in_flight_settle [of i s "Raised KeyError"] show ?thesis
      by (simp add: gate_inv_def settle_def)
  next
    case (posted c)
    with assms(1) in_flight_update [of i "s\<lparr>sem_value := sem_value s - 1\<rparr>" "InFlight (Payload c True)"]
    show ?thesis
      by (simp add: gate_inv_def in_flight_def)
  qed
next
  case (Reply i r)
  with assms(2) have "request_resume K D i r s = Some s'" by simp
  then show ?thesis
  proof (cases rule: request_resume_cases)
    case (over_release p)
    have "0 < in_flight s"
    proof -
      have "tasks s ! i \<in> set (tasks s)" using over_release(2) by simp
      then have "filter is_in_flight (tasks s) \<noteq> []"
        using over_release(3) by (auto simp: filter_empty_conv intro!: bexI [of _ "InFlight p"])
      then show ?thesis by (simp add: in_flight_def)
    qed
    with assms(1) over_release show ?thesis by (simp add: gate_inv_def)
  next
    case (failed p e)
    with assms(1) in_flight_settle [of i "s\<lparr>sem_value := sem_value s + 1\<rparr>" "Raised e"] show ?thesis
      by (simp add: gate_inv_def settle_def in_flight_def)
  next
    case (stored p v)
    with assms(1) in_flight_settle [of i "s\<lparr>heap := (heap s)(D ! i := (heap s (D ! i))(''embedding'' \<mapsto> Vector v)),
            sem_value := sem_value s + 1\<rparr>" Finished] show ?thesis
      by (simp add: gate_inv_def settle_def in_flight_def)
  qed
next
  case Await
  with assms(2) have "main_await s = Some s'" by simp
  then show ?thesis
    using assms(1) by (cases rule: main_await_cases) (auto simp: gate_inv_def in_flight_def)
qed

lemma gate_inv_run:
  assumes "run K D h es = Some s"
  shows "gate_inv K D s"
  using assms
  by (induction rule: run_induct) (auto intro: gate_inv_main gate_inv_fire)

lemma in_flight_pos:
  assumes "i < length (tasks s)" "tasks s ! i = InFlight p"
  shows "0 < in_flight s"
proof -
  have "tasks s ! i \<in> set (tasks s)"
    using assms(1) by (rule nth_mem)
  then have "filter is_in_flight (tasks s) \<noteq> []"
    using assms(2) by (auto simp: filter_empty_conv intro!: bexI [of _ "InFlight p"])
  then show ?thesis by (simp add: in_flight_def)
qed

lemma fire_cases [consumes 2, case_names key_error posted failed stored returned aborted progressed]:
  assumes "gate_inv K D s" and "fire K D e s = Some s'"
  obtains
    (key_error) i where "e = Admit i" "i < length D" "tasks s ! i = Pending"
      "0 < sem_value s" "heap s (D ! i) ''content'' = None"
      "s' = settle i (Raised KeyError) s"
  | (posted) i c where "e = Admit i" "i < length D" "tasks s ! i = Pending"
      "0 < sem_value s" "heap s (D ! i) ''content'' = Some c"
      "s' = s\<lparr>sem_value := sem_value s - 1, tasks := (tasks s)[i := InFlight (Payload c True)]\<rparr>"
  | (failed) i r p err where "e = Reply i r" "i < length D" "tasks s ! i = InFlight p"
      "first_row r = Inl err"
      "s' = settle i (Raised err) (s\<lparr>sem_value := sem_value s + 1\<rparr>)"
  | (stored) i r p v where "e = Reply i r" "i < length D" "tasks s ! i = InFlight p"
      "first_row r = Inr v"
      "s' = settle i Finished
         (s\<lparr>heap := (heap s)(D ! i := (heap s (D ! i))(''embedding'' \<mapsto> Vector v)),
            sem_value := sem_value s + 1\<rparr>)"
  | (returned) "e = Await" "main_st s = Running" "consumed s = length D"
      "s' = s\<lparr>main_st := Returned\<rparr>"
  | (aborted) j q err where "e = Await" "main_st s = Running" "consumed s \<noteq> length D"
      "done_q s = j # q" "tasks s ! j = Raised err"
      "s' = s\<lparr>done_q := q, main_st := Aborted err\<rparr>"
  | (progressed) j q where "e = Await" "main_st s = Running" "consumed s \<noteq> length D"
      "done_q s = j # q" "\<forall>err. tasks s ! j \<noteq> Raised err"
      "s' = s\<lparr>done_q := q, consumed := consumed s + 1\<rparr>"
proof -
  from assms(1) have len: "length (tasks s) = length D" and sum: "sem_value s + in_flight s = K"
    by (simp_all add: gate_inv_def)
  show thesis
  proof (cases e)
    case (Admit i)
    with assms(2) have "request_enter K D i s = Some s'" by simp
    then show ?thesis
    proof (cases rule: request_enter_cases)
      case over_release
      with sum show ?thesis by simp
    next
      case key_error
      with Admit show ?thesis by (intro that(1)) auto
    next
      case (posted c)
      with Admit show ?thesis by (intro that(2)) auto
    qed
  next
    case (Reply i r)
    with assms(2) have "request_resume K D i r s = Some s'" by simp
    then show ?thesis
    proof (cases rule: request_resume_cases)
      case (over_release p)
      with sum in_flight_pos [of i s p] show ?thesis by simp
    next
      case (failed p err)
      with Reply show ?thesis by (intro that(3)) auto
    next
      case (stored p v)
      with Reply show ?thesis by (intro that(4)) auto
    qed
  next
    case Await
    with assms(2) have "main_await s = Some s'" by simp
    then show ?thesis
    proof (cases rule: main_await_cases)
      case returned
      with Await len show ?thesis by (intro that(5)) auto
    next
      case (aborted j q err)
      with Await len show ?thesis by (intro that(6)) auto
    next
      case (progressed j q)
      with Await len show ?thesis by (intro that(7)) auto
    qed
  qed
qed

lemma frame_fire:
  assumes "gate_inv K D s" "fire K D e s = Some s'" "k \<noteq> ''embedding''"
  shows "heap s' a k = heap s a k"
  using assms by (cases rule: fire_cases) (auto simp: settle_def)

lemma frame_run:
  assumes "run K D h es = Some s" "k \<noteq> ''embedding''"
  shows "heap s a k = h a k"
  using assms
proof (induction rule: run_induct)
  case init
  then show ?case by (simp add: main_def)
next
  case (step es s e s')
  from step.hyps(1) have "gate_inv K D s" by (rule gate_inv_run)
  from frame_fire [OF this step.hyps(2) step.prems] step.IH [OF step.prems]
  show ?case by simp
qed

lemma untouched_fire:
  assumes "gate_inv K D s" "fire K D e s = Some s'" "a \<notin> set D"
  shows "heap s' a = heap s a"
  using assms by (cases rule: fire_cases) (auto simp: settle_def)

lemma payload_inv_run:
  assumes "run K D h es = Some s"
  shows "payload_inv D h s"
  using assms
proof (induction rule: run_induct)
  case init
  then show ?case by (auto simp: payload_inv_def main_def)
next
  case (step es s e s')
  have g: "gate_inv K D s" using step.hyps(1) by (rule gate_inv_run)
  have c: "heap s a ''content'' = h a ''content''" for a
    using frame_run [OF step.hyps(1)] by simp
  from g step.hyps(2) show ?case
  proof (cases rule: fire_cases)
    case (posted i c)
    with step.IH c g show ?thesis
      by (auto simp: payload_inv_def gate_inv_def nth_list_update)
  qed (use step.IH g in \<open>auto simp: payload_inv_def settle_def gate_inv_def nth_list_update\<close>)
qed

lemma admit_count_run:
  assumes "run K D h es = Some s"
  shows "count_list es (Admit i) = (if i < length D \<and> tasks s ! i \<noteq> Pending then 1 else 0)"
  using assms
proof (induction rule: run_induct)
  case init
  then show ?case by (simp add: main_def)
next
  case (step es s e s')
  have g: "gate_inv K D s" using step.hyps(1) by (rule gate_inv_run)
  from g step.hyps(2) show ?case
    by (cases rule: fire_cases)
      (use step.IH g in \<open>auto simp: settle_def gate_inv_def nth_list_update\<close>)
qed

lemma first_row_Inr_iff: "first_row r = Inr v \<longleftrightarrow> (\<exists>vs. r = Rows (v # vs))"
  by (cases r rule: first_row.cases) auto

lemma replies_to_append: "replies_to j (es @ fs) = replies_to j es @ replies_to j fs"
  by (induction j es rule: replies_to.induct) auto

lemma outcome_not [simp]:
  "outcome r \<noteq> Pending" "Pending \<noteq> outcome r" "\<not> is_in_flight (outcome r)"
  "outcome r \<noteq> Raised KeyError" "settled (outcome r)"
  "outcome r \<noteq> InFlight p" "InFlight p \<noteq> outcome r"
  by (cases r rule: first_row.cases; simp add: outcome_def)+

lemma outcome_Finished: "outcome r = Finished \<longleftrightarrow> (\<exists>v. first_row r = Inr v)"
  by (cases r rule: first_row.cases) (auto simp: outcome_def)

lemma outcome_simps:
  "first_row r = Inl e \<Longrightarrow> outcome r = Raised e"
  "first_row r = Inr v \<Longrightarrow> outcome r = Finished"
  by (simp_all add: outcome_def)

lemma reply_ok_run:
  assumes "run K D h es = Some s"
  shows "reply_ok D h es s j"
  using assms
proof (induction rule: run_induct)
  case init
  then show ?case by (simp add: reply_ok_def main_def)
next
  case (step es s e s')
  have g: "gate_inv K D s" using step.hyps(1) by (rule gate_inv_run)
  then have len: "length (tasks s) = length D" by (simp add: gate_inv_def)
  have c: "heap s a ''content'' = h a ''content''" for a
    using frame_run [OF step.hyps(1)] by simp
  have pay: "payload_inv D h s" using step.hyps(1) by (rule payload_inv_run)
  from g step.hyps(2) show ?case
  proof (cases rule: fire_cases)
    case (key_error i)
    with step.IH len c [of "D ! i"] show ?thesis
      by (cases "j = i") (auto simp: reply_ok_def replies_to_append settle_def)
  next
    case (posted i c)
    with step.IH len show ?thesis
      by (cases "j = i") (auto simp: reply_ok_def replies_to_append)
  next
    case (failed i r p err)
    with step.IH len pay show ?thesis
      by (cases "j = i") (auto simp: reply_ok_def replies_to_append settle_def outcome_simps payload_inv_def)
  next
    case (stored i r p v)
    with step.IH len pay show ?thesis
      by (cases "j = i") (auto simp: reply_ok_def replies_to_append settle_def outcome_simps payload_inv_def)
  next
    case returned
    with step.IH show ?thesis by (auto simp: reply_ok_def replies_to_append)
  next
    case (aborted j q err)
    with step.IH show ?thesis by (auto simp: reply_ok_def replies_to_append)
  next
    case (progressed j q)
    with step.IH show ?thesis by (auto simp: reply_ok_def replies_to_append)
  qed
qed

lemma heap_ok_run:
  assumes "run K D h es = Some s"
  shows "heap_ok D h es s a"
  using assms
proof (induction rule: run_induct)
  case init
  then show ?case by (simp add: heap_ok_def main_def)
next
  case (step es s e s')
  have g: "gate_inv K D s" using step.hyps(1) by (rule gate_inv_run)
  then have len: "length (tasks s) = length D" by (simp add: gate_inv_def)
  have rep: "reply_ok D h es s j" for j using step.hyps(1) by (rule reply_ok_run)
  from g step.hyps(2) show ?case
  proof (cases rule: fire_cases)
    case (key_error i)
    have "replies_to j (es @ [e]) = replies_to j es" for j
      using key_error by (simp add: replies_to_append)
    moreover have "tasks s' ! j \<noteq> Finished" if "tasks s ! j \<noteq> Finished" for j
      using that key_error len by (cases "j = i") (auto simp: settle_def)
    moreover have "heap s' = heap s"
      using key_error by (simp add: settle_def)
    ultimately show ?thesis
      using step.IH unfolding heap_ok_def by metis
  next
    case (posted i c)
    have "replies_to j (es @ [e]) = replies_to j es" for j
      using posted by (simp add: replies_to_append)
    moreover have "tasks s' ! j \<noteq> Finished" if "tasks s ! j \<noteq> Finished" for j
      using that posted len by (cases "j = i") auto
    moreover have "heap s' = heap s"
      using posted by simp
    ultimately show ?thesis
      using step.IH unfolding heap_ok_def by metis
  next
    case (failed i r p err)
    have none: "replies_to i es = []"
      using rep [of i] failed by (auto simp: reply_ok_def)
    have "replies_to j (es @ [e]) = replies_to j es" if "j \<noteq> i" for j
      using failed that by (simp add: replies_to_append)
    moreover have "tasks s' ! j \<noteq> Finished" if "tasks s ! j \<noteq> Finished" for j
      using that failed len by (cases "j = i") (auto simp: settle_def)
    moreover have "heap s' = heap s"
      using failed by (simp add: settle_def)
    ultimately show ?thesis
      using step.IH none unfolding heap_ok_def by (metis list.distinct(1))
  next
    case (stored i r p v)
    have none: "replies_to i es = []"
      using rep [of i] stored by (auto simp: reply_ok_def)
    have one: "replies_to i (es @ [e]) = [r]"
      using stored none by (simp add: replies_to_append)
    have keep: "replies_to j (es @ [e]) = replies_to j es" if "j \<noteq> i" for j
      using stored that by (simp add: replies_to_append)
    have ph: "tasks s' ! j = tasks s ! j" if "j \<noteq> i" for j
      using that stored by (simp add: settle_def)
    show ?thesis
    proof (cases "a = D ! i")
      case True
      have "heap s' a = (heap s a)(''embedding'' \<mapsto> Vector v)"
        using stored True by (simp add: settle_def)
      moreover have "(heap s a)(''embedding'' \<mapsto> Vector v) = (h a)(''embedding'' \<mapsto> Vector v)"
        using step.IH unfolding heap_ok_def by auto
      ultimately have "heap s' a = (h a)(''embedding'' \<mapsto> Vector v)" by simp
      with stored(2,4) True one have "i < length D \<and> D ! i = a \<and> replies_to i (es @ [e]) = [r] \<and>
          first_row r = Inr v \<and> heap s' a = (h a)(''embedding'' \<mapsto> Vector v)"
        by simp
      then show ?thesis
        unfolding heap_ok_def by blast
    next
      case False
      then have same: "heap s' a = heap s a"
        using stored by (simp add: settle_def)
      from False have ne: "j \<noteq> i" if "D ! j = a" for j
        using that by auto
      from step.IH show ?thesis
        unfolding heap_ok_def
      proof (elim disjE exE conjE)
        assume "heap s a = h a" "\<forall>j<length D. D ! j = a \<longrightarrow> tasks s ! j \<noteq> Finished"
        with same ne ph have "heap s' a = h a \<and> (\<forall>j<length D. D ! j = a \<longrightarrow> tasks s' ! j \<noteq> Finished)"
          by simp
        then show "(heap s' a = h a \<and> (\<forall>j<length D. D ! j = a \<longrightarrow> tasks s' ! j \<noteq> Finished)) \<or>
          (\<exists>j v r. j < length D \<and> D ! j = a \<and> replies_to j (es @ [e]) = [r] \<and> first_row r = Inr v \<and>
            heap s' a = (h a)(''embedding'' \<mapsto> Vector v))" ..
      next
        fix j w r'
        assume "j < length D" "D ! j = a" "replies_to j es = [r']" "first_row r' = Inr w"
          "heap s a = (h a)(''embedding'' \<mapsto> Vector w)"
        with same ne keep have "j < length D \<and> D ! j = a \<and> replies_to j (es @ [e]) = [r'] \<and>
            first_row r' = Inr w \<and> heap s' a = (h a)(''embedding'' \<mapsto> Vector w)"
          by simp
        then show "(heap s' a = h a \<and> (\<forall>j<length D. D ! j = a \<longrightarrow> tasks s' ! j \<noteq> Finished)) \<or>
          (\<exists>j v r. j < length D \<and> D ! j = a \<and> replies_to j (es @ [e]) = [r] \<and> first_row r = Inr v \<and>
            heap s' a = (h a)(''embedding'' \<mapsto> Vector v))" by blast
      qed
    qed
  next
    case returned
    with step.IH show ?thesis by (simp add: heap_ok_def replies_to_append)
  next
    case (aborted j q err)
    with step.IH show ?thesis by (simp add: heap_ok_def replies_to_append)
  next
    case (progressed j q)
    with step.IH show ?thesis by (simp add: heap_ok_def replies_to_append)
  qed
qed

lemma main_inv_task_step:
  assumes inv: "main_inv D s" and len: "length (tasks s) = length D" and i: "i < length D"
    and open_i: "\<not> settled (tasks s ! i)"
    and t: "tasks s' = (tasks s)[i := ph]" and c: "consumed s' = consumed s"
    and m: "main_st s' = main_st s"
    and q: "done_q s' = (if settled ph then done_q s @ [i] else done_q s)"
  shows "main_inv D s'"
proof -
  from inv open_i have notin: "i \<notin> set (done_q s)"
    by (auto simp: main_inv_def)
  then have same: "tasks s' ! j = tasks s ! j" if "j \<in> set (done_q s)" for j
    using that t by (cases "j = i") auto
  have at_i: "tasks s' ! i = ph"
    using t i len by simp
  have filt: "filter (\<lambda>j. tasks s' ! j = Finished) (done_q s) =
      filter (\<lambda>j. tasks s ! j = Finished) (done_q s)"
    using same by (intro filter_cong) auto
  from open_i have nf: "tasks s ! i \<noteq> Finished"
    by auto
  have cnt: "length (filter (\<lambda>ph. ph = Finished) (tasks s')) =
      length (filter (\<lambda>ph. ph = Finished) (tasks s)) + (if ph = Finished then 1 else 0)"
    using filter_update_count [of i "tasks s" "\<lambda>ph. ph = Finished" ph] i len nf t by simp
  have 1: "\<forall>j \<in> set (done_q s'). j < length D \<and> settled (tasks s' ! j)"
    using inv q same at_i i by (auto simp: main_inv_def)
  have fin: "settled ph" if "ph = Finished"
    using that by simp
  have 2: "consumed s' + length (filter (\<lambda>j. tasks s' ! j = Finished) (done_q s')) =
         length (filter (\<lambda>ph. ph = Finished) (tasks s'))"
    using inv c q filt cnt at_i fin by (auto simp: main_inv_def)
  have 3: "main_st s' = Returned \<longrightarrow> consumed s' = length D"
    using inv c m by (simp add: main_inv_def)
  have 4: "\<exists>j < length D. tasks s' ! j = Raised err" if "main_st s' = Aborted err" for err
  proof -
    from that m inv obtain j where j: "j < length D" "tasks s ! j = Raised err"
      by (auto simp: main_inv_def)
    with open_i have "j \<noteq> i" by auto
    with j t show ?thesis by auto
  qed
  from 1 2 3 4 show ?thesis
    unfolding main_inv_def by blast
qed

lemma main_inv_run:
  assumes "run K D h es = Some s"
  shows "main_inv D s"
  using assms
proof (induction rule: run_induct)
  case init
  then show ?case by (simp add: main_inv_def main_def filter_empty_conv)
next
  case (step es s e s')
  have g: "gate_inv K D s" using step.hyps(1) by (rule gate_inv_run)
  then have len: "length (tasks s) = length D" by (simp add: gate_inv_def)
  from g step.hyps(2) show ?case
  proof (cases rule: fire_cases)
    case (key_error i)
    with step.IH len show ?thesis
      by (intro main_inv_task_step [of D s i s' "Raised KeyError"]) (simp_all add: settle_def)
  next
    case (posted i c)
    with step.IH len show ?thesis
      by (intro main_inv_task_step [of D s i s' "InFlight (Payload c True)"]) simp_all
  next
    case (failed i r p err)
    with step.IH len show ?thesis
      by (intro main_inv_task_step [of D s i s' "Raised err"]) (simp_all add: settle_def)
  next
    case (stored i r p v)
    with step.IH len show ?thesis
      by (intro main_inv_task_step [of D s i s' Finished]) (simp_all add: settle_def)
  next
    case returned
    with step.IH show ?thesis by (simp add: main_inv_def)
  next
    case (aborted j q err)
    with step.IH show ?thesis by (auto simp: main_inv_def)
  next
    case (progressed j q)
    with step.IH have "settled (tasks s ! j)" by (simp add: main_inv_def)
    with progressed(5) have "tasks s ! j = Finished"
      by (cases "tasks s ! j") auto
    with progressed step.IH show ?thesis by (auto simp: main_inv_def)
  qed
qed

lemma filter_all:
  assumes "length (filter P xs) = length xs" "x \<in> set xs"
  shows "P x"
  using assms
proof (induction xs)
  case Nil
  then show ?case by simp
next
  case (Cons y ys)
  have le: "length (filter P ys) \<le> length ys" by (rule length_filter_le)
  show ?case
  proof (cases "P y")
    case True
    with Cons show ?thesis by auto
  next
    case False
    with Cons.prems(1) le show ?thesis by simp
  qed
qed

lemma replies_to_mem: "r \<in> set (replies_to j es) \<longleftrightarrow> Reply j r \<in> set es"
  by (induction j es rule: replies_to.induct) auto






lemma settled_fire:
  assumes "gate_inv K D s" "fire K D e s = Some s'" "settled (tasks s ! j)"
  shows "tasks s' ! j = tasks s ! j"
  using assms(1,2)
proof (cases rule: fire_cases)
  case (key_error i)
  with assms(3) show ?thesis by (cases "j = i") (auto simp: settle_def)
next
  case (posted i c)
  with assms(3) show ?thesis by (cases "j = i") auto
next
  case (failed i r p err)
  with assms(3) show ?thesis by (cases "j = i") (auto simp: settle_def)
next
  case (stored i r p v)
  with assms(3) show ?thesis by (cases "j = i") (auto simp: settle_def)
qed simp_all

lemma run_append:
  "run K D h (es @ es') = Some s' \<longleftrightarrow>
     (\<exists>s. run K D h es = Some s \<and> run_from K D es' s = Some s')"
  by (auto simp: run_def run_from_append split: option.splits)

lemma settled_forever:
  assumes "run K D h es = Some s" "run K D h (es @ es') = Some s'" "settled (tasks s ! j)"
  shows "tasks s' ! j = tasks s ! j"
  using assms(2)
proof (induction es' arbitrary: s' rule: rev_induct)
  case Nil
  with assms(1) show ?case by simp
next
  case (snoc e es')
  from snoc.prems have "run K D h ((es @ es') @ [e]) = Some s'" by simp
  then obtain s1 where s1: "run K D h (es @ es') = Some s1" "fire K D e s1 = Some s'"
    unfolding run_snoc by blast
  from snoc.IH [OF s1(1)] have same: "tasks s1 ! j = tasks s ! j" .
  have "gate_inv K D s1" using s1(1) by (rule gate_inv_run)
  from settled_fire [OF this s1(2)] same assms(3) show ?case by simp
qed

lemma returned_all_finished:
  assumes "run K D h es = Some s" "main_st s = Returned" "i < length D"
  shows "tasks s ! i = Finished"
proof -
  have len: "length (tasks s) = length D"
    using gate_inv_run [OF assms(1)] by (simp add: gate_inv_def)
  have "main_inv D s" using assms(1) by (rule main_inv_run)
  with assms(2) have "length D \<le> length (filter (\<lambda>ph. ph = Finished) (tasks s))"
    by (simp add: main_inv_def)
  with len length_filter_le [of "\<lambda>ph. ph = Finished" "tasks s"]
  have "length (filter (\<lambda>ph. ph = Finished) (tasks s)) = length (tasks s)"
    by simp
  moreover have "tasks s ! i \<in> set (tasks s)"
    using assms(3) len by simp
  ultimately show ?thesis by (rule filter_all)
qed

lemma run_prefix:
  assumes "run K D h (es @ es') = Some s'"
  obtains s where "run K D h es = Some s"
  using assms unfolding run_append by blast

lemma pending_update:
  assumes "i < length (tasks s)" "tasks s' = (tasks s)[i := ph]" "ph \<noteq> Pending"
  shows "pending s' + (if tasks s ! i = Pending then 1 else 0) = pending s"
  using filter_update_count [of i "tasks s" "\<lambda>ph. ph = Pending" ph] assms
  by (simp add: pending_def)

lemma admit_free:
  assumes "gate_inv K D s" "i < length D" "tasks s ! i = Pending" "0 < sem_value s"
  shows "\<exists>s'. fire K D (Admit i) s = Some s' \<and> tasks s' ! i \<noteq> Pending \<and> pending s' < pending s"
proof -
  from assms(1) have len: "length (tasks s) = length D" and le: "sem_value s \<le> K"
    by (auto simp: gate_inv_def)
  show ?thesis
  proof (cases "heap s (D ! i) ''content''")
    case None
    let ?s' = "settle i (Raised KeyError) s"
    from None assms(2-4) len le have "fire K D (Admit i) s = Some ?s'"
      by (simp add: request_enter_def acquire_def release_def)
    moreover have "tasks ?s' ! i \<noteq> Pending"
      using assms(2) len by (simp add: settle_def)
    moreover have "pending ?s' < pending s"
      using pending_update [of i s ?s' "Raised KeyError"] assms(2,3) len by (simp add: settle_def)
    ultimately show ?thesis by blast
  next
    case (Some c)
    let ?s' = "s\<lparr>sem_value := sem_value s - 1, tasks := (tasks s)[i := InFlight (Payload c True)]\<rparr>"
    from Some assms(2-4) len have "fire K D (Admit i) s = Some ?s'"
      by (simp add: request_enter_def acquire_def)
    moreover have "tasks ?s' ! i \<noteq> Pending"
      using assms(2) len by simp
    moreover have "pending ?s' < pending s"
      using pending_update [of i s ?s' "InFlight (Payload c True)"] assms(2,3) len by simp
    ultimately show ?thesis by blast
  qed
qed

lemma admit_one:
  assumes "0 < K" "run K D h es = Some s" "i < length D" "tasks s ! i = Pending"
  shows "\<exists>es1 s1. run K D h (es @ es1) = Some s1 \<and> pending s1 < pending s"
proof -
  have g: "gate_inv K D s" using assms(2) by (rule gate_inv_run)
  then have len: "length (tasks s) = length D" and sum: "sem_value s + in_flight s = K"
    by (simp_all add: gate_inv_def)
  show ?thesis
  proof (cases "0 < sem_value s")
    case True
    from admit_free [OF g assms(3,4) True] obtain s' where
      "fire K D (Admit i) s = Some s'" "pending s' < pending s"
      by blast
    with assms(2) have "run K D h (es @ [Admit i]) = Some s' \<and> pending s' < pending s"
      by (auto simp: run_snoc)
    then show ?thesis by blast
  next
    case False
    with sum assms(1) have "0 < in_flight s" by simp
    then have "filter is_in_flight (tasks s) \<noteq> []"
      by (simp add: in_flight_def)
    then obtain ph where "ph \<in> set (tasks s)" "is_in_flight ph"
      by (auto simp: filter_empty_conv)
    then obtain j where j: "j < length (tasks s)" "is_in_flight (tasks s ! j)"
      by (auto simp: in_set_conv_nth)
    from j(2) have nj: "tasks s ! j \<noteq> Pending" by auto
    with assms(4) have ij: "i \<noteq> j" by auto
    let ?s0 = "settle j (Raised IndexError) (s\<lparr>sem_value := sem_value s + 1\<rparr>)"
    from False sum assms(1) have "sem_value s < K" by simp
    with j len have f0: "fire K D (Reply j ZeroDim) s = Some ?s0"
      by (simp add: request_resume_def release_def)
    with assms(2) have r0: "run K D h (es @ [Reply j ZeroDim]) = Some ?s0"
      by (auto simp: run_snoc)
    then have g0: "gate_inv K D ?s0" by (rule gate_inv_run)
    have p0: "pending ?s0 = pending s"
      using pending_update [of j s ?s0 "Raised IndexError"] j(1) nj by (simp add: settle_def)
    have "tasks ?s0 ! i = Pending" "0 < sem_value ?s0"
      using assms(4) ij by (simp_all add: settle_def)
    from admit_free [OF g0 assms(3) this] obtain s1 where
      "fire K D (Admit i) ?s0 = Some s1" "pending s1 < pending ?s0"
      by blast
    with r0 p0 have "run K D h ((es @ [Reply j ZeroDim]) @ [Admit i]) = Some s1 \<and> pending s1 < pending s"
      unfolding run_snoc by auto
    then have "run K D h (es @ [Reply j ZeroDim, Admit i]) = Some s1 \<and> pending s1 < pending s"
      by simp
    then show ?thesis by blast
  qed
qed

lemma can_admit_all:
  assumes "0 < K" "run K D h es = Some s"
  shows "\<exists>es' s'. run K D h (es @ es') = Some s' \<and> (\<forall>j < length D. tasks s' ! j \<noteq> Pending)"
  using assms(2)
proof (induction "pending s" arbitrary: es s rule: less_induct)
  case less
  show ?case
  proof (cases "\<exists>i < length D. tasks s ! i = Pending")
    case True
    then obtain i where "i < length D" "tasks s ! i = Pending" by blast
    from admit_one [OF assms(1) less.prems this] obtain es1 s1 where
      s1: "run K D h (es @ es1) = Some s1" "pending s1 < pending s"
      by blast
    from less.hyps [OF s1(2) s1(1)] obtain es2 s2 where
      "run K D h ((es @ es1) @ es2) = Some s2" "\<forall>j < length D. tasks s2 ! j \<noteq> Pending"
      by blast
    then have "run K D h (es @ (es1 @ es2)) = Some s2 \<and> (\<forall>j < length D. tasks s2 ! j \<noteq> Pending)"
      by simp
    then show ?thesis by blast
  next
    case False
    with less.prems have "run K D h (es @ []) = Some s \<and> (\<forall>j < length D. tasks s ! j \<noteq> Pending)"
      by simp
    then show ?thesis by blast
  qed
qed

lemma at_most_one_index:
  assumes "distinct D"
  shows "length (filter (\<lambda>j. D ! j = a \<and> P j) [0..<length D]) \<le> 1"
proof -
  let ?xs = "filter (\<lambda>j. D ! j = a \<and> P j) [0..<length D]"
  have d: "distinct ?xs" by simp
  have "x = y" if "x \<in> set ?xs" "y \<in> set ?xs" for x y
    using that assms by (auto simp: nth_eq_iff_index_eq)
  then have "card (set ?xs) \<le> Suc 0"
    by (subst card_le_Suc0_iff_eq) auto
  with distinct_card [OF d] show ?thesis by simp
qed


section \<open>The admission gate\<close>

text \<open>
  C1. In every state a run of \<open>main\<close> reaches, for every bound and every list of
  documents, at most \<open>bound\<close> requests are outstanding, and the outstanding requests
  and the free slots add up to the bound (each outstanding request holds one slot). A
  task is admitted only when a slot is free, and its request then takes that slot; when
  \<open>bound\<close> requests are outstanding no task can be admitted. Every reply, whatever it
  is (rows, an empty array, a failure), ends one outstanding request and frees one slot.
\<close>

theorem outstanding_requests_bounded:
  assumes "run bound documents h es = Some s"
  shows "in_flight s \<le> bound
    \<and> in_flight s + sem_value s = bound
    \<and> (in_flight s = bound \<longrightarrow> fire bound documents (Admit i) s = None)
    \<and> (\<forall>s'. fire bound documents (Admit i) s = Some s' \<longrightarrow>
          0 < sem_value s \<and> (is_in_flight (tasks s' ! i) \<longrightarrow> sem_value s' + 1 = sem_value s))
    \<and> (\<forall>r s'. fire bound documents (Reply i r) s = Some s' \<longrightarrow>
          in_flight s' + 1 = in_flight s \<and> sem_value s' = sem_value s + 1)"
proof -
  have inv: "gate_inv bound documents s"
    using assms by (rule gate_inv_run)
  then have sum: "sem_value s + in_flight s = bound"
    by (simp add: gate_inv_def)
  have full: "fire bound documents (Admit i) s = None" if "in_flight s = bound"
    using that sum by (simp add: request_enter_def acquire_def)
  have admit: "0 < sem_value s \<and> (is_in_flight (tasks s' ! i) \<longrightarrow> sem_value s' + 1 = sem_value s)"
    if "fire bound documents (Admit i) s = Some s'" for s'
  proof -
    from that have "request_enter bound documents i s = Some s'" by simp
    then show ?thesis
      by (cases rule: request_enter_cases) (auto simp: settle_def)
  qed
  have reply: "in_flight s' + 1 = in_flight s \<and> sem_value s' = sem_value s + 1"
    if step: "fire bound documents (Reply i r) s = Some s'" for r s'
  proof -
    from inv step have "gate_inv bound documents s'"
      by (rule gate_inv_fire)
    then have sum': "sem_value s' + in_flight s' = bound"
      by (simp add: gate_inv_def)
    from step have "request_resume bound documents i r s = Some s'" by simp
    then have "sem_value s' = sem_value s + 1"
    proof (cases rule: request_resume_cases)
      case (over_release p)
      have "tasks s ! i \<in> set (tasks s)"
        using over_release(2) by (rule nth_mem)
      then have "filter is_in_flight (tasks s) \<noteq> []"
        using over_release(3) by (auto simp: filter_empty_conv intro!: bexI [of _ "InFlight p"])
      then have "0 < in_flight s" by (simp add: in_flight_def)
      with sum over_release(4) show ?thesis by simp
    qed (simp_all add: settle_def)
    with sum sum' show ?thesis by simp
  qed
  from sum full admit reply show ?thesis by auto
qed

theorem outstanding_requests_bounded_witness:
  "\<exists>s. run MAX_WORKERS [0, 1, 2, 3, 4, 5] demo_heap
         [Admit 0, Admit 1, Admit 2, Admit 3, Admit 4] = Some s
     \<and> in_flight s = 5 \<and> sem_value s = 0
     \<and> fire MAX_WORKERS [0, 1, 2, 3, 4, 5] (Admit 5) s = None"
proof -
  have "map_option in_flight
      (run MAX_WORKERS [0, 1, 2, 3, 4, 5] demo_heap
         [Admit 0, Admit 1, Admit 2, Admit 3, Admit 4]) = Some 5"
    by (simp add: run_def main_def MAX_WORKERS_def demo_heap_def request_enter_def
        acquire_def in_flight_def)
  then obtain s where s: "run MAX_WORKERS [0, 1, 2, 3, 4, 5] demo_heap
         [Admit 0, Admit 1, Admit 2, Admit 3, Admit 4] = Some s" and five: "in_flight s = 5"
    by auto
  from outstanding_requests_bounded [OF s, of 5] five show ?thesis
    using s by (simp add: MAX_WORKERS_def)
qed

section \<open>What a request changes\<close>

text \<open>
  C5. In every state of every run each field of each record other than \<open>embedding\<close>
  has the value it had when \<open>main\<close> was called, records that are not in the job set are
  untouched, and no transition changes a field other than \<open>embedding\<close>.
\<close>

theorem only_embedding_field_changes:
  assumes "run bound documents h es = Some s"
  shows "(\<forall>a k. k \<noteq> ''embedding'' \<longrightarrow> heap s a k = h a k)
    \<and> (\<forall>a. a \<notin> set documents \<longrightarrow> heap s a = h a)
    \<and> (\<forall>e s' a k. fire bound documents e s = Some s' \<and> k \<noteq> ''embedding'' \<longrightarrow>
          heap s' a k = heap s a k)"
proof -
  have g: "gate_inv bound documents s"
    using assms by (rule gate_inv_run)
  have "heap s a = h a" if "a \<notin> set documents" for a
    using assms that
  proof (induction rule: run_induct)
    case init
    then show ?case by (simp add: main_def)
  next
    case (step es s e s')
    from step.hyps(1) have "gate_inv bound documents s" by (rule gate_inv_run)
    from untouched_fire [OF this step.hyps(2) step.prems] step.IH [OF step.prems]
    show ?case by simp
  qed
  with frame_run [OF assms] frame_fire [OF g] show ?thesis by blast
qed

theorem only_embedding_field_changes_witness:
  "\<exists>s. run 2 [0, 1] demo_heap
         [Admit 0, Admit 1, Reply 1 (Rows [7, 8]), Reply 0 (Rows [3 :: nat])] = Some s
     \<and> heap s 1 ''content'' = Some (Text ''x'') \<and> heap s 1 ''id'' = Some (Opaque 1)
     \<and> heap s 1 ''embedding'' = Some (Vector 7) \<and> heap s 2 = demo_heap 2"
proof -
  have "map_option (\<lambda>s. heap s 1 ''embedding'')
      (run 2 [0, 1] demo_heap
         [Admit 0, Admit 1, Reply 1 (Rows [7, 8]), Reply 0 (Rows [3 :: nat])]) =
      Some (Some (Vector 7))"
    by (simp add: run_def main_def demo_heap_def request_enter_def request_resume_def
        acquire_def release_def settle_def)
  then obtain s where s: "run 2 [0, 1] demo_heap
         [Admit 0, Admit 1, Reply 1 (Rows [7, 8]), Reply 0 (Rows [3 :: nat])] = Some s"
    and emb: "heap s 1 ''embedding'' = Some (Vector 7)"
    by auto
  from only_embedding_field_changes [OF s] have
    "heap s 1 ''content'' = demo_heap 1 ''content''" "heap s 1 ''id'' = demo_heap 1 ''id''"
    "heap s 2 = demo_heap 2"
    by simp_all
  with s emb show ?thesis
    by (auto simp: demo_heap_def)
qed

section \<open>The payload\<close>

text \<open>
  C8. The flag is the constant \<open>True\<close> of the payload. Whenever the request of record
  \<open>i\<close> is outstanding, its payload holds the whole value of the record's \<open>content\<close>
  field and the flag is set; and a pending task that finds a free slot sends the content,
  whatever it is: the transition looks at no property of the text, its length included.
\<close>

theorem full_content_sent_with_truncate:
  assumes "run bound documents h es = Some s" and "i < length documents"
  shows "(\<forall>p. tasks s ! i = InFlight p \<longrightarrow>
            h (documents ! i) ''content'' = Some (inputs p) \<and> truncate_flag p = True)
    \<and> (\<forall>c. tasks s ! i = Pending \<and> 0 < sem_value s \<and> h (documents ! i) ''content'' = Some c \<longrightarrow>
          fire bound documents (Admit i) s =
            Some (s\<lparr>sem_value := sem_value s - 1,
                    tasks := (tasks s)[i := InFlight (Payload c True)]\<rparr>))"
proof -
  have "payload_inv documents h s"
    using assms(1) by (rule payload_inv_run)
  with assms(2) have sent: "h (documents ! i) ''content'' = Some (inputs p) \<and> truncate_flag p = True"
    if "tasks s ! i = InFlight p" for p
    using that by (simp add: payload_inv_def)
  have len: "length (tasks s) = length documents"
    using gate_inv_run [OF assms(1)] by (simp add: gate_inv_def)
  have same: "heap s (documents ! i) ''content'' = h (documents ! i) ''content''"
    using frame_run [OF assms(1)] by simp
  have "fire bound documents (Admit i) s =
      Some (s\<lparr>sem_value := sem_value s - 1, tasks := (tasks s)[i := InFlight (Payload c True)]\<rparr>)"
    if "tasks s ! i = Pending" "0 < sem_value s" "h (documents ! i) ''content'' = Some c" for c
    using that assms(2) len same by (simp add: request_enter_def acquire_def)
  with sent show ?thesis by blast
qed

theorem full_content_sent_with_truncate_witness:
  "\<exists>s. run MAX_WORKERS [5] (demo_heap :: nat heap) [Admit 0] = Some s
     \<and> tasks s = [InFlight (Payload (Text ''xxxxx'') True)]"
proof -
  have "\<exists>p. map_option tasks (run MAX_WORKERS [5] (demo_heap :: nat heap) [Admit 0]) =
      Some [InFlight p]"
    by (simp add: run_def main_def demo_heap_def request_enter_def acquire_def MAX_WORKERS_def)
  then obtain s p where s: "run MAX_WORKERS [5] (demo_heap :: nat heap) [Admit 0] = Some s"
    and p: "tasks s = [InFlight p]"
    by auto
  from full_content_sent_with_truncate [OF s, of 0] p
  have "demo_heap 5 ''content'' = Some (inputs p)" "truncate_flag p = True"
    by simp_all
  then have "p = Payload (Text ''xxxxx'') True"
    by (cases p) (simp add: demo_heap_def eval_nat_numeral)
  with s p show ?thesis by simp
qed

section \<open>Indexing the response\<close>

text \<open>
  C10. When the reply to an outstanding request decodes to an empty array, \<open>result[0]\<close>
  raises \<open>IndexError\<close>: the task ends with that exception and the heap is as it was,
  so no \<open>embedding\<close> is attached. When the reply has a first row, that row is stored
  in the \<open>embedding\<close> field of the task's record. A reply changes the heap only if it
  has a first row.
\<close>

theorem empty_response_raises:
  assumes "run bound documents h es = Some s"
    and "fire bound documents (Reply i r) s = Some s'"
  shows "(r = Rows [] \<longrightarrow> tasks s' ! i = Raised IndexError \<and> heap s' = heap s)
    \<and> (\<forall>v vs. r = Rows (v # vs) \<longrightarrow>
          tasks s' ! i = Finished \<and>
          heap s' = (heap s)(documents ! i := (heap s (documents ! i))(''embedding'' \<mapsto> Vector v)))
    \<and> (heap s' \<noteq> heap s \<longrightarrow> (\<exists>v vs. r = Rows (v # vs)))"
proof -
  have g: "gate_inv bound documents s"
    using assms(1) by (rule gate_inv_run)
  from g assms(2) show ?thesis
  proof (cases rule: fire_cases)
    case (failed j r' p err)
    with g show ?thesis
      by (auto simp: settle_def gate_inv_def)
  next
    case (stored j r' p v)
    with g show ?thesis
      by (auto simp: settle_def gate_inv_def first_row_Inr_iff)
  qed simp_all
qed

theorem empty_response_raises_witness:
  "\<exists>s s'. run 1 [0] (demo_heap :: nat heap) [Admit 0] = Some s
     \<and> fire 1 [0] (Reply 0 (Rows [])) s = Some s'
     \<and> tasks s' ! 0 = Raised IndexError \<and> heap s' = heap s \<and> heap s' 0 ''embedding'' = None"
proof -
  have "\<exists>s'. map_option (\<lambda>s. (fire 1 [0] (Reply 0 (Rows [])) s, heap s 0 ''embedding''))
        (run 1 [0] (demo_heap :: nat heap) [Admit 0])
      = Some (Some s', None)"
    by (simp add: run_def main_def demo_heap_def request_enter_def request_resume_def
        acquire_def release_def)
  then obtain s s' where s: "run 1 [0] (demo_heap :: nat heap) [Admit 0] = Some s"
    and s': "fire 1 [0] (Reply 0 (Rows [])) s = Some s'"
    and none: "heap s 0 ''embedding'' = None"
    by auto
  from empty_response_raises [OF s s'] have "tasks s' ! 0 = Raised IndexError" "heap s' = heap s"
    by simp_all
  with s s' none show ?thesis by auto
qed

section \<open>Records and their own responses\<close>

text \<open>
  C4. Let the job set be a list of distinct records. Whatever the order of admissions
  and replies, once the task of record \<open>i\<close> has finished the run has delivered exactly
  one reply to it, that reply has a first row, and the record consists of its initial
  fields and that row as \<open>embedding\<close>; as long as the task has not finished the record
  is as it was, so the reply to another record's request never reaches it. A reply to
  task \<open>i\<close> answers a request whose payload was the \<open>content\<close> of record \<open>i\<close>, and
  it changes no record but record \<open>i\<close>.
\<close>

theorem own_response_only:
  assumes "run bound documents h es = Some s"
    and "distinct documents" and "i < length documents"
  shows "(tasks s ! i = Finished \<longrightarrow>
            (\<exists>v vs. replies_to i es = [Rows (v # vs)] \<and>
               heap s (documents ! i) = (h (documents ! i))(''embedding'' \<mapsto> Vector v)))
    \<and> (tasks s ! i \<noteq> Finished \<longrightarrow> heap s (documents ! i) = h (documents ! i))
    \<and> (\<forall>r s'. fire bound documents (Reply i r) s = Some s' \<longrightarrow>
          (\<exists>p. tasks s ! i = InFlight p \<and> h (documents ! i) ''content'' = Some (inputs p)) \<and>
          (\<forall>a. a \<noteq> documents ! i \<longrightarrow> heap s' a = heap s a))"
proof -
  have g: "gate_inv bound documents s"
    using assms(1) by (rule gate_inv_run)
  have rep: "reply_ok documents h es s i"
    using assms(1) by (rule reply_ok_run)
  have hp: "heap_ok documents h es s (documents ! i)"
    using assms(1) by (rule heap_ok_run)
  have own: "j = i" if "j < length documents" "documents ! j = documents ! i" for j
    using that assms(2,3) by (simp add: nth_eq_iff_index_eq)
  have fin: "\<exists>v vs. replies_to i es = [Rows (v # vs)] \<and>
      heap s (documents ! i) = (h (documents ! i))(''embedding'' \<mapsto> Vector v)"
    if "tasks s ! i = Finished"
  proof -
    from hp that assms(3) obtain j v r where j: "j < length documents"
      "documents ! j = documents ! i" "replies_to j es = [r]" "first_row r = Inr v"
      "heap s (documents ! i) = (h (documents ! i))(''embedding'' \<mapsto> Vector v)"
      unfolding heap_ok_def by blast
    from own [OF j(1,2)] j(3) have "replies_to i es = [r]" by simp
    moreover from j(4) obtain vs where "r = Rows (v # vs)"
      by (auto simp: first_row_Inr_iff)
    ultimately show ?thesis using j(5) by blast
  qed
  have unfin: "heap s (documents ! i) = h (documents ! i)" if nf: "tasks s ! i \<noteq> Finished"
  proof -
    from hp show ?thesis
      unfolding heap_ok_def
    proof (elim disjE exE conjE)
      fix j v r
      assume j: "j < length documents" "documents ! j = documents ! i"
        "replies_to j es = [r]" "first_row r = Inr v"
      from own [OF j(1,2)] j(3) have "replies_to i es = [r]" by simp
      with rep assms(3) have "tasks s ! i = outcome r"
        by (auto simp: reply_ok_def)
      with j(4) nf show ?thesis by (simp add: outcome_simps)
    qed
  qed
  have step: "(\<exists>p. tasks s ! i = InFlight p \<and> h (documents ! i) ''content'' = Some (inputs p)) \<and>
          (\<forall>a. a \<noteq> documents ! i \<longrightarrow> heap s' a = heap s a)"
    if f: "fire bound documents (Reply i r) s = Some s'" for r s'
  proof -
    have pay: "payload_inv documents h s"
      using assms(1) by (rule payload_inv_run)
    from g f show ?thesis
    proof (cases rule: fire_cases)
      case (failed j r' p err)
      with pay show ?thesis by (auto simp: payload_inv_def settle_def)
    next
      case (stored j r' p v)
      with pay show ?thesis by (auto simp: payload_inv_def settle_def)
    qed simp_all
  qed
  from fin unfin step show ?thesis by blast
qed

theorem own_response_only_witness:
  "distinct [0 :: nat, 1]
   \<and> (\<exists>s. run 2 [0, 1] demo_heap
          [Admit 0, Admit 1, Reply 1 (Rows [7, 8]), Reply 0 (Rows [3 :: nat])] = Some s
        \<and> tasks s ! 0 = Finished
        \<and> heap s 0 = (demo_heap 0)(''embedding'' \<mapsto> Vector 3))"
proof -
  let ?es = "[Admit 0, Admit 1, Reply 1 (Rows [7, 8]), Reply 0 (Rows [3 :: nat])]"
  have d: "distinct [0 :: nat, 1]" by simp
  have "map_option (\<lambda>s. tasks s ! 0) (run 2 [0, 1] demo_heap ?es) = Some Finished"
    by (simp add: run_def main_def demo_heap_def request_enter_def request_resume_def
        acquire_def release_def settle_def)
  then obtain s where s: "run 2 [0, 1] demo_heap ?es = Some s"
    and t: "tasks s ! 0 = Finished"
    by auto
  from own_response_only [OF s d, of 0] t
  have "\<exists>v vs. replies_to 0 ?es = [Rows (v # vs)] \<and>
      heap s ([0, 1] ! 0) = (demo_heap ([0, 1] ! 0))(''embedding'' \<mapsto> Vector v)"
    by simp
  then have "heap s 0 = (demo_heap 0)(''embedding'' \<mapsto> Vector 3)"
    by auto
  with d s t show ?thesis by blast
qed

section \<open>A request that fails\<close>

text \<open>
  C2, as the code has it. A failed request (the post raises, or the body cannot be
  decoded or indexed) ends the task of its own record with the exception and does
  nothing else: no record changes, so the record gets neither an \<open>embedding\<close> nor a
  marker of the failure, and no other task changes; outstanding requests of other records
  can still be answered. The failure is not kept from \<open>main\<close>: once a task has raised
  it stays raised and \<open>main\<close> never returns normally in any continuation of the run;
  when the failed task is the next one \<open>main\<close> awaits, \<open>main\<close> ends with the task's
  exception; and \<open>main\<close> has returned only if every task finished.
\<close>

theorem failure_reaches_main:
  assumes "run bound documents h es = Some s"
  shows "(\<forall>r s' err. fire bound documents (Reply i r) s = Some s' \<and> first_row r = Inl err \<longrightarrow>
            heap s' = heap s \<and> tasks s' = (tasks s)[i := Raised err] \<and> main_st s' = main_st s)
    \<and> (\<forall>j r. j < length documents \<and> is_in_flight (tasks s ! j) \<longrightarrow>
          fire bound documents (Reply j r) s \<noteq> None)
    \<and> (\<forall>err. i < length documents \<and> tasks s ! i = Raised err \<longrightarrow>
          (\<forall>es' s'. run bound documents h (es @ es') = Some s' \<longrightarrow>
             tasks s' ! i = Raised err \<and> main_st s' \<noteq> Returned))
    \<and> (\<forall>err q. tasks s ! i = Raised err \<and> main_st s = Running \<and> done_q s = i # q \<longrightarrow>
          main_await s = Some (s\<lparr>done_q := q, main_st := Aborted err\<rparr>))
    \<and> (main_st s = Returned \<longrightarrow> (\<forall>j < length documents. tasks s ! j = Finished))"
proof -
  have g: "gate_inv bound documents s"
    using assms by (rule gate_inv_run)
  then have len: "length (tasks s) = length documents"
    and sum: "sem_value s + in_flight s = bound"
    by (simp_all add: gate_inv_def)
  have inv: "main_inv documents s"
    using assms by (rule main_inv_run)
  have c1: "heap s' = heap s \<and> tasks s' = (tasks s)[i := Raised err] \<and> main_st s' = main_st s"
    if f: "fire bound documents (Reply i r) s = Some s'" and r: "first_row r = Inl err"
    for r s' err
    using g f
  proof (cases rule: fire_cases)
    case (failed j r' p err')
    with r show ?thesis by (simp add: settle_def)
  next
    case (stored j r' p v)
    with r show ?thesis by simp
  qed simp_all
  have c2: "fire bound documents (Reply j r) s \<noteq> None"
    if j: "j < length documents" "is_in_flight (tasks s ! j)" for j r
  proof -
    from j(2) obtain p where "tasks s ! j = InFlight p"
      by (cases "tasks s ! j") auto
    with in_flight_pos [of j s p] j(1) len have "0 < in_flight s" by simp
    with sum have "sem_value s < bound" by simp
    with j len show ?thesis
      by (simp add: request_resume_def release_def Let_def split: sum.splits prod.splits)
  qed
  have c3: "tasks s' ! i = Raised err \<and> main_st s' \<noteq> Returned"
    if i: "i < length documents" "tasks s ! i = Raised err"
      and r: "run bound documents h (es @ es') = Some s'" for err es' s'
  proof -
    from settled_forever [OF assms r, of i] i(2) have t: "tasks s' ! i = Raised err"
      by simp
    have "main_st s' \<noteq> Returned"
    proof
      assume "main_st s' = Returned"
      from returned_all_finished [OF r this i(1)] t show False by simp
    qed
    with t show ?thesis by simp
  qed
  have c4: "main_await s = Some (s\<lparr>done_q := q, main_st := Aborted err\<rparr>)"
    if t: "tasks s ! i = Raised err" and m: "main_st s = Running" and q: "done_q s = i # q"
    for err q
  proof -
    from inv q have i: "i < length documents"
      by (simp add: main_inv_def)
    then have "tasks s ! i \<in> set (tasks s)"
      using len by simp
    with t have "length (filter (\<lambda>ph. ph = Finished) (tasks s)) < length (tasks s)"
      by (intro length_filter_less [of "tasks s ! i"]) simp_all
    with inv have "consumed s < length (tasks s)"
      by (simp add: main_inv_def)
    with t m q show ?thesis
      by (simp add: main_await_def)
  qed
  have c5: "tasks s ! j = Finished" if "main_st s = Returned" "j < length documents" for j
    using returned_all_finished [OF assms that] .
  from c1 c2 c3 c4 c5 show ?thesis by blast
qed

theorem failure_reaches_main_witness:
  "\<exists>s. run 2 [0, 1] demo_heap [Admit 0, Admit 1, Reply 1 (Rows [4 :: nat]), Reply 0 (Fails Timeout)] = Some s
     \<and> tasks s ! 0 = Raised (RequestFailed Timeout) \<and> main_st s = Running \<and> done_q s = [1, 0]
     \<and> (\<exists>s'. run 2 [0, 1] demo_heap
           ([Admit 0, Admit 1, Reply 1 (Rows [4]), Reply 0 (Fails Timeout)] @ [Await, Await]) = Some s'
           \<and> tasks s' ! 0 = Raised (RequestFailed Timeout)
           \<and> main_st s' = Aborted (RequestFailed Timeout)
           \<and> heap s' 1 ''embedding'' = Some (Vector 4))"
proof -
  let ?es = "[Admit 0, Admit 1, Reply 1 (Rows [4 :: nat]), Reply 0 (Fails Timeout)]"
  have "map_option (\<lambda>s. (tasks s ! 0, main_st s, done_q s)) (run 2 [0, 1] demo_heap ?es) =
      Some (Raised (RequestFailed Timeout), Running, [1, 0])"
    by (simp add: run_def main_def demo_heap_def request_enter_def request_resume_def
        acquire_def release_def settle_def)
  then obtain s where s: "run 2 [0, 1] demo_heap ?es = Some s"
    and t: "tasks s ! 0 = Raised (RequestFailed Timeout)" "main_st s = Running" "done_q s = [1, 0]"
    by auto
  have "map_option (\<lambda>s. (main_st s, heap s 1 ''embedding''))
      (run 2 [0, 1] demo_heap (?es @ [Await, Await])) =
      Some (Aborted (RequestFailed Timeout), Some (Vector 4))"
    by (simp add: run_def main_def demo_heap_def request_enter_def request_resume_def
        main_await_def acquire_def release_def settle_def)
  then obtain s' where s': "run 2 [0, 1] demo_heap (?es @ [Await, Await]) = Some s'"
    and t': "main_st s' = Aborted (RequestFailed Timeout)" "heap s' 1 ''embedding'' = Some (Vector 4)"
    by auto
  from failure_reaches_main [OF s, of 0] t(1) s'
  have "tasks s' ! 0 = Raised (RequestFailed Timeout)"
    by simp
  with s t s' t' show ?thesis by blast
qed

text \<open>
  C2 as the specification states it does not hold: one request times out, and \<open>main\<close>
  ends with that exception while the second record has not been embedded; the failed
  record is exactly as it was, with no marker.
\<close>

theorem failure_reaches_main_counterexample:
  "run 1 [0, 1] demo_heap [Admit 0, Reply 0 (Fails Timeout), Await] \<noteq> None
   \<and> main_st (the (run 1 [0, 1] demo_heap [Admit 0, Reply 0 (Fails Timeout), Await])) =
       Aborted (RequestFailed Timeout)
   \<and> tasks (the (run 1 [0, 1] demo_heap [Admit 0, Reply 0 (Fails Timeout), Await])) =
       [Raised (RequestFailed Timeout), Pending]
   \<and> heap (the (run 1 [0, 1] demo_heap [Admit 0, Reply 0 (Fails Timeout), Await])) 0 =
       demo_heap 0"
  by (simp add: run_def main_def demo_heap_def request_enter_def request_resume_def
      main_await_def acquire_def release_def settle_def)

section \<open>One attempt per record\<close>

text \<open>
  C6. \<open>main\<close> creates one task per element of \<open>documents\<close>. In every run each task
  is admitted at most once, and exactly once as soon as it is no longer pending; it
  receives at most one reply, and none while its request is outstanding, so a record's
  task never has two requests. With a positive bound no task is left out: every run can
  be continued to one in which every task has been admitted exactly once. When the job
  set is a list of distinct records, a record has at most one outstanding request at any
  moment; and the reply to a task changes no record but its own.
\<close>

theorem one_attempt_per_record:
  assumes "run bound documents h es = Some s"
  shows "length (tasks s) = length documents
    \<and> count_list es (Admit i) = (if i < length documents \<and> tasks s ! i \<noteq> Pending then 1 else 0)
    \<and> length (replies_to i es) \<le> 1
    \<and> (i < length documents \<and> is_in_flight (tasks s ! i) \<longrightarrow> replies_to i es = [])
    \<and> (0 < bound \<longrightarrow>
         (\<exists>es' s'. run bound documents h (es @ es') = Some s' \<and>
            (\<forall>j < length documents. count_list (es @ es') (Admit j) = 1)))
    \<and> (distinct documents \<longrightarrow> outstanding_for documents s a \<le> 1)
    \<and> (\<forall>r s'. fire bound documents (Reply i r) s = Some s' \<longrightarrow>
          (\<forall>b. b \<noteq> documents ! i \<longrightarrow> heap s' b = heap s b))"
proof -
  have g: "gate_inv bound documents s"
    using assms by (rule gate_inv_run)
  then have c1: "length (tasks s) = length documents"
    by (simp add: gate_inv_def)
  note c2 = admit_count_run [OF assms, of i]
  have ok: "reply_ok documents h es s i"
    using assms by (rule reply_ok_run)
  then have c3: "length (replies_to i es) \<le> 1"
    by (auto simp: reply_ok_def split: if_splits)
  have c4: "replies_to i es = []" if "i < length documents" "is_in_flight (tasks s ! i)"
    using ok that by (auto simp: reply_ok_def)
  have c5: "\<exists>es' s'. run bound documents h (es @ es') = Some s' \<and>
            (\<forall>j < length documents. count_list (es @ es') (Admit j) = 1)"
    if "0 < bound"
  proof -
    from can_admit_all [OF that assms] obtain es' s' where
      s': "run bound documents h (es @ es') = Some s'"
      "\<forall>j < length documents. tasks s' ! j \<noteq> Pending"
      by blast
    have "count_list (es @ es') (Admit j) = 1" if "j < length documents" for j
      using admit_count_run [OF s'(1), of j] s'(2) that by simp
    with s'(1) show ?thesis by blast
  qed
  have c6: "outstanding_for documents s a \<le> 1" if "distinct documents"
    unfolding outstanding_for_def using that by (rule at_most_one_index)
  have c7: "heap s' b = heap s b"
    if f: "fire bound documents (Reply i r) s = Some s'" and b: "b \<noteq> documents ! i" for r s' b
    using g f
  proof (cases rule: fire_cases)
    case (failed j r' p err)
    then show ?thesis by (simp add: settle_def)
  next
    case (stored j r' p v)
    with b show ?thesis by (simp add: settle_def)
  qed simp_all
  from c1 c2 c3 c4 c5 c6 c7 show ?thesis by blast
qed

theorem one_attempt_per_record_witness:
  "distinct [0 :: nat, 1, 2]
   \<and> (\<exists>s. run 2 [0, 1, 2] (demo_heap :: nat heap) [Admit 0, Admit 2] = Some s
        \<and> length (tasks s) = 3
        \<and> count_list [Admit 0, Admit 2 :: nat event] (Admit 0) = 1
        \<and> tasks s ! 1 = Pending
        \<and> outstanding_for [0, 1, 2] s 0 = 1
        \<and> (\<exists>es' s'. run 2 [0, 1, 2] demo_heap ([Admit 0, Admit 2] @ es') = Some s'
              \<and> count_list ([Admit 0, Admit 2] @ es') (Admit 1) = 1))"
proof -
  let ?es = "[Admit 0, Admit 2 :: nat event]"
  have d: "distinct [0 :: nat, 1, 2]" by simp
  have "map_option (\<lambda>s. (tasks s ! 1, outstanding_for [0, 1, 2] s 0))
      (run 2 [0, 1, 2] (demo_heap :: nat heap) ?es) = Some (Pending, 1)"
    by (simp add: run_def main_def demo_heap_def request_enter_def acquire_def
        outstanding_for_def upt_rec)
  then obtain s where s: "run 2 [0, 1, 2] (demo_heap :: nat heap) ?es = Some s"
    and t: "tasks s ! 1 = Pending" "outstanding_for [0, 1, 2] s 0 = 1"
    by auto
  note inst = one_attempt_per_record [OF s, of 1 0]
  from inst have len: "length (tasks s) = 3" by simp
  from inst have "\<exists>es' s'. run 2 [0, 1, 2] demo_heap (?es @ es') = Some s' \<and>
      (\<forall>j < length [0 :: nat, 1, 2]. count_list (?es @ es') (Admit j) = 1)"
    by simp
  then have "\<exists>es' s'. run 2 [0, 1, 2] demo_heap (?es @ es') = Some s' \<and>
      count_list (?es @ es') (Admit 1) = 1"
    by fastforce
  with d s t len show ?thesis by simp
qed

section \<open>The result of a run in which every request succeeds\<close>




section \<open>Two runs against a deterministic endpoint\<close>



section \<open>Transient failures\<close>

text \<open>
  C7, as the code has it. \<open>request\<close> posts once and has no loop and no handler: in
  every run in which the request of record \<open>i\<close> fails in the transport (a timeout or a
  reset connection among the failures), the task has ended with that failure, it had
  been admitted exactly once before the failure and is never admitted after it, the
  failure is the only reply it ever received, and it cannot be admitted again. Nothing
  is retried and nothing waits. The failure changes no record; and when the job set is a
  list of distinct records, record \<open>i\<close> has at the end of the run exactly the fields it
  had when \<open>main\<close> was called: the client attaches no embedding to it.
\<close>

theorem transient_failure_not_retried:
  assumes "run bound documents h (es @ Reply i (Fails f) # es') = Some s"
  shows "tasks s ! i = Raised (RequestFailed f)
    \<and> count_list es (Admit i) = 1
    \<and> Admit i \<notin> set es'
    \<and> replies_to i (es @ Reply i (Fails f) # es') = [Fails f]
    \<and> fire bound documents (Admit i) s = None
    \<and> (\<exists>s1 s2. run bound documents h es = Some s1 \<and>
          fire bound documents (Reply i (Fails f)) s1 = Some s2 \<and> heap s2 = heap s1 \<and>
          run_from bound documents es' s2 = Some s)
    \<and> (distinct documents \<longrightarrow> heap s (documents ! i) = h (documents ! i))"
proof -
  let ?all = "es @ Reply i (Fails f) # es'"
  have ok: "reply_ok documents h ?all s i"
    using assms by (rule reply_ok_run)
  have mem: "Fails f \<in> set (replies_to i ?all)"
    by (simp add: replies_to_mem)
  then have ne: "replies_to i ?all \<noteq> []" by auto
  with ok have i: "i < length documents"
    by (auto simp: reply_ok_def split: if_splits)
  with ok ne obtain r where r: "replies_to i ?all = [r]" "tasks s ! i = outcome r"
    by (auto simp: reply_ok_def)
  with mem have "r = Fails f" by simp
  with r have one: "replies_to i ?all = [Fails f]"
    and raised: "tasks s ! i = Raised (RequestFailed f)"
    by (simp_all add: outcome_def)
  from admit_count_run [OF assms, of i] i raised
  have total: "count_list ?all (Admit i) = 1" by simp
  from assms have "run bound documents h ((es @ [Reply i (Fails f)]) @ es') = Some s"
    by simp
  then obtain s1' where s1': "run bound documents h (es @ [Reply i (Fails f)]) = Some s1'"
    by (rule run_prefix)
  have "reply_ok documents h (es @ [Reply i (Fails f)]) s1' i"
    using s1' by (rule reply_ok_run)
  moreover have "replies_to i (es @ [Reply i (Fails f)]) \<noteq> []"
    by (simp add: replies_to_append)
  ultimately have "tasks s1' ! i \<noteq> Pending"
    using i by (auto simp: reply_ok_def)
  with admit_count_run [OF s1', of i] i
  have before: "count_list es (Admit i) = 1" by simp
  with total have "count_list es' (Admit i) = 0" by simp
  then have after: "Admit i \<notin> set es'"
    by (simp add: count_list_0_iff)
  from raised have stuck: "fire bound documents (Admit i) s = None"
    by (simp add: request_enter_def)
  have step: "\<exists>s1 s2. run bound documents h es = Some s1 \<and>
      fire bound documents (Reply i (Fails f)) s1 = Some s2 \<and> heap s2 = heap s1 \<and>
      run_from bound documents es' s2 = Some s"
  proof -
    from assms obtain s1 where s1: "run bound documents h es = Some s1"
      "run_from bound documents (Reply i (Fails f) # es') s1 = Some s"
      unfolding run_append by blast
    from s1(2) obtain s2 where s2: "fire bound documents (Reply i (Fails f)) s1 = Some s2"
      "run_from bound documents es' s2 = Some s"
      by (auto split: option.splits)
    have g: "gate_inv bound documents s1"
      using s1(1) by (rule gate_inv_run)
    from g s2(1) have "heap s2 = heap s1"
      by (cases rule: fire_cases) (simp_all add: settle_def)
    with s1(1) s2 show ?thesis by blast
  qed
  have kept: "heap s (documents ! i) = h (documents ! i)" if d: "distinct documents"
  proof -
    have "heap_ok documents h ?all s (documents ! i)"
      using assms by (rule heap_ok_run)
    then show ?thesis
      unfolding heap_ok_def
    proof (elim disjE exE conjE)
      fix j v r'
      assume j: "j < length documents" "documents ! j = documents ! i"
        "replies_to j ?all = [r']" "first_row r' = Inr v"
      from j(1,2) d i have "j = i" by (simp add: nth_eq_iff_index_eq)
      with j(3) one have "r' = Fails f" by simp
      with j(4) show ?thesis by simp
    qed
  qed
  from raised before after one stuck step kept show ?thesis by blast
qed

theorem transient_failure_not_retried_witness:
  "distinct [0 :: nat]
   \<and> (\<exists>s. run 1 [0] (demo_heap :: nat heap) ([Admit 0] @ Reply 0 (Fails Timeout) # [Await]) = Some s
     \<and> tasks s = [Raised (RequestFailed Timeout)]
     \<and> main_st s = Aborted (RequestFailed Timeout)
     \<and> fire 1 [0] (Admit 0) s = None
     \<and> heap s 0 = demo_heap 0)"
proof -
  have d: "distinct [0 :: nat]" by simp
  have "map_option (\<lambda>s. (length (tasks s), main_st s))
      (run 1 [0] (demo_heap :: nat heap) ([Admit 0] @ Reply 0 (Fails Timeout) # [Await])) =
      Some (1, Aborted (RequestFailed Timeout))"
    by (simp add: run_def main_def demo_heap_def request_enter_def request_resume_def
        main_await_def acquire_def release_def settle_def)
  then obtain s where s: "run 1 [0] (demo_heap :: nat heap)
      ([Admit 0] @ Reply 0 (Fails Timeout) # [Await]) = Some s"
    and t: "length (tasks s) = 1" "main_st s = Aborted (RequestFailed Timeout)"
    by auto
  from transient_failure_not_retried [OF s] d
  have r: "tasks s ! 0 = Raised (RequestFailed Timeout)" "fire 1 [0] (Admit 0) s = None"
    "heap s 0 = demo_heap 0"
    by simp_all
  from t(1) r(1) have "tasks s = [Raised (RequestFailed Timeout)]"
    by (cases "tasks s") auto
  with d s t r show ?thesis by blast
qed

text \<open>
  C7 as the specification states it does not hold: after one timeout the record's task
  has failed, its slot is free again, the record is as it was, and neither a second
  request nor a later reply for the record is possible.
\<close>

theorem retry_counterexample:
  "tasks (the (run 1 [0] (demo_heap :: nat heap) [Admit 0, Reply 0 (Fails Timeout)])) =
       [Raised (RequestFailed Timeout)]
   \<and> sem_value (the (run 1 [0] (demo_heap :: nat heap) [Admit 0, Reply 0 (Fails Timeout)])) = 1
   \<and> heap (the (run 1 [0] (demo_heap :: nat heap) [Admit 0, Reply 0 (Fails Timeout)])) 0 =
       demo_heap 0
   \<and> run 1 [0] (demo_heap :: nat heap) [Admit 0, Reply 0 (Fails Timeout), Admit 0] = None
   \<and> run 1 [0] (demo_heap :: nat heap) [Admit 0, Reply 0 (Fails Timeout), Reply 0 (Rows [1])] = None"
  by (simp add: run_def main_def demo_heap_def request_enter_def request_resume_def
      acquire_def release_def settle_def)

end
